theory Spec2Isabelle
  imports Main
begin

section \<open>The bridge between the dashboard and the agent\<close>

text \<open>
  The program is \<^verbatim>\<open>python_bridge/chatboxAgenticBridge.py\<close>: two asyncio coroutines,
  \<^verbatim>\<open>agenticHandler\<close> and \<^verbatim>\<open>dashboardHandler\<close>, that share the module-level variables
  \<^verbatim>\<open>message\<close>, \<^verbatim>\<open>event\<close> and \<^verbatim>\<open>event2\<close>. asyncio runs coroutines cooperatively on one
  thread: a coroutine runs without interruption from one \<^verbatim>\<open>await\<close> that suspends to the
  next. The model therefore has one transition for each stretch of code between two
  suspension points, and a program counter per handler that names the \<^verbatim>\<open>await\<close> the
  handler is suspended at.
\<close>

subsection \<open>State\<close>

text \<open>Where the coroutine \<^verbatim>\<open>dashboardHandler\<close> is suspended.\<close>

datatype dashboard_pc =
    D_Closed      \<comment> \<open>no dashboard handler is running\<close>
  | D_First_Recv  \<comment> \<open>line 30: \<^verbatim>\<open>message = await websocket.recv()\<close>\<close>
  | D_Wait        \<comment> \<open>line 34: \<^verbatim>\<open>await event2.wait()\<close>\<close>
  | D_Send        \<comment> \<open>line 37: \<^verbatim>\<open>await websocket.send(message)\<close>\<close>
  | D_Next_Recv   \<comment> \<open>line 39: \<^verbatim>\<open>message = await websocket.recv()\<close>\<close>

text \<open>Where the coroutine \<^verbatim>\<open>agenticHandler\<close> is suspended.\<close>

datatype agent_pc =
    A_Closed      \<comment> \<open>no agent handler is running\<close>
  | A_Wait        \<comment> \<open>line 15: \<^verbatim>\<open>await event.wait()\<close>\<close>
  | A_Send        \<comment> \<open>line 18: \<^verbatim>\<open>await websocket.send(message)\<close>\<close>
  | A_Recv        \<comment> \<open>line 20: \<^verbatim>\<open>message = await websocket.recv()\<close>\<close>

text \<open>
  What a harness on the two websockets observes: the payload of each call of
  \<^verbatim>\<open>send\<close> (recorded when the handler makes the call, with the argument it passes) and
  the payload each \<^verbatim>\<open>recv\<close> returns.
\<close>

datatype io =
    DashRecv string    \<comment> \<open>the dashboard websocket's \<^verbatim>\<open>recv\<close> returned the payload\<close>
  | AgentSend string   \<comment> \<open>\<^verbatim>\<open>agenticHandler\<close> called \<^verbatim>\<open>send\<close> with the payload\<close>
  | AgentRecv string   \<comment> \<open>the agent websocket's \<^verbatim>\<open>recv\<close> returned the payload\<close>
  | DashSend string    \<comment> \<open>\<^verbatim>\<open>dashboardHandler\<close> called \<^verbatim>\<open>send\<close> with the payload\<close>

text \<open>
  The three globals of lines 6 to 8, the two program counters, and the observed
  transport operations, oldest first.
\<close>

record bridge =
  message :: string
  event :: bool
  event2 :: bool
  dashboard :: dashboard_pc
  agent :: agent_pc
  wire :: "io list"

text \<open>
  Lines 6 to 8: \<^verbatim>\<open>message = "global"\<close>, and two fresh events, which are unset. No
  connection has been accepted yet.
\<close>

definition init :: bridge where
  "init = \<lparr>message = ''global'', event = False, event2 = False,
           dashboard = D_Closed, agent = A_Closed, wire = []\<rparr>"

text \<open>The literal the dashboard loop compares with on line 31.\<close>

definition sentinel :: string where
  "sentinel = ''exit''"

subsection \<open>Handlers\<close>

text \<open>
  Why a handler resumes. \<open>Accept\<close>: the server accepted a connection and starts the
  handler, which runs up to its first \<^verbatim>\<open>await\<close>. \<open>Woken\<close>: the event the handler waits for
  is set. \<open>Sent\<close>: the pending \<^verbatim>\<open>send\<close> completed. \<open>Received p\<close>: the pending \<^verbatim>\<open>recv\<close>
  returned \<open>p\<close>. \<open>Failed\<close>: the pending \<^verbatim>\<open>send\<close> or \<^verbatim>\<open>recv\<close> raised (the connection is
  closed or broken); the exception leaves the \<^verbatim>\<open>try\<close> block through \<^verbatim>\<open>finally\<close>, which
  only prints, and ends the handler.
\<close>

datatype resume = Accept | Woken | Sent | Received string | Failed

text \<open>
  \<^verbatim>\<open>agenticHandler\<close>, lines 10 to 24. The result is \<open>None\<close> when the handler cannot resume
  for that reason in that state. \<^verbatim>\<open>await event.wait()\<close> returns once the event is set;
  \<^verbatim>\<open>event.clear()\<close> and the call \<^verbatim>\<open>websocket.send(message)\<close>, which reads \<^verbatim>\<open>message\<close>,
  follow without suspension. After \<^verbatim>\<open>recv\<close> returns, the assignment to \<^verbatim>\<open>message\<close> and
  \<^verbatim>\<open>event2.set()\<close> follow without suspension, and the loop is back at line 15.
\<close>

fun agenticHandler :: "resume \<Rightarrow> bridge \<Rightarrow> bridge option" where
  "agenticHandler Accept s =
     (if agent s = A_Closed then Some (s\<lparr>agent := A_Wait\<rparr>) else None)"
| "agenticHandler Woken s =
     (if agent s = A_Wait \<and> event s
      then Some (s\<lparr>event := False, wire := wire s @ [AgentSend (message s)], agent := A_Send\<rparr>)
      else None)"
| "agenticHandler Sent s =
     (if agent s = A_Send then Some (s\<lparr>agent := A_Recv\<rparr>) else None)"
| "agenticHandler (Received r) s =
     (if agent s = A_Recv
      then Some (s\<lparr>message := r, wire := wire s @ [AgentRecv r], event2 := True, agent := A_Wait\<rparr>)
      else None)"
| "agenticHandler Failed s =
     (if agent s = A_Send \<or> agent s = A_Recv then Some (s\<lparr>agent := A_Closed\<rparr>) else None)"

text \<open>
  \<^verbatim>\<open>dashboardHandler\<close>, lines 26 to 41. Both \<^verbatim>\<open>recv\<close> calls (lines 30 and 39) assign
  \<^verbatim>\<open>message\<close> and go to the loop test \<^verbatim>\<open>message != "exit"\<close> of line 31: when it holds,
  \<^verbatim>\<open>event.set()\<close> follows and the handler suspends at \<^verbatim>\<open>await event2.wait()\<close>; when it
  fails, the loop and the handler end. Once \<^verbatim>\<open>event2\<close> is set the handler clears it and
  calls \<^verbatim>\<open>websocket.send(message)\<close>.
\<close>

fun dashboardHandler :: "resume \<Rightarrow> bridge \<Rightarrow> bridge option" where
  "dashboardHandler Accept s =
     (if dashboard s = D_Closed then Some (s\<lparr>dashboard := D_First_Recv\<rparr>) else None)"
| "dashboardHandler (Received p) s =
     (if dashboard s = D_First_Recv \<or> dashboard s = D_Next_Recv
      then (if p \<noteq> ''exit''
            then Some (s\<lparr>message := p, wire := wire s @ [DashRecv p], event := True,
                         dashboard := D_Wait\<rparr>)
            else Some (s\<lparr>message := p, wire := wire s @ [DashRecv p], dashboard := D_Closed\<rparr>))
      else None)"
| "dashboardHandler Woken s =
     (if dashboard s = D_Wait \<and> event2 s
      then Some (s\<lparr>event2 := False, wire := wire s @ [DashSend (message s)], dashboard := D_Send\<rparr>)
      else None)"
| "dashboardHandler Sent s =
     (if dashboard s = D_Send then Some (s\<lparr>dashboard := D_Next_Recv\<rparr>) else None)"
| "dashboardHandler Failed s =
     (if dashboard s = D_First_Recv \<or> dashboard s = D_Send \<or> dashboard s = D_Next_Recv
      then Some (s\<lparr>dashboard := D_Closed\<rparr>) else None)"

subsection \<open>Interleaved execution\<close>

text \<open>
  The event loop picks a handler that can resume. One dashboard connection and one agent
  connection are served at a time: a handler is started only when the previous handler of
  the same kind has ended.
\<close>

datatype task = Dashboard | Agent

fun step :: "task \<times> resume \<Rightarrow> bridge \<Rightarrow> bridge option" where
  "step (Dashboard, r) s = dashboardHandler r s"
| "step (Agent, r) s = agenticHandler r s"

inductive reachable :: "bridge \<Rightarrow> bool" where
  reachable_init: "reachable init"
| reachable_step: "reachable s \<Longrightarrow> step a s = Some s' \<Longrightarrow> reachable s'"

text \<open>A schedule is run from left to right; it is \<open>None\<close> when some resumption is not possible.\<close>

fun exec :: "(task \<times> resume) list \<Rightarrow> bridge \<Rightarrow> bridge option" where
  "exec [] s = Some s"
| "exec (a # as) s = (case step a s of None \<Rightarrow> None | Some s' \<Rightarrow> exec as s')"

subsection \<open>The listener\<close>

text \<open>
  \<^verbatim>\<open>main\<close>, lines 43 to 46: two calls of \<^verbatim>\<open>websockets.serve(handler, host, port)\<close>, in
  this order.
\<close>

datatype handler = AgenticHandler | DashboardHandler

record server =
  serves :: handler
  host :: string
  port :: nat

definition main :: "server list" where
  "main = [\<lparr>serves = AgenticHandler, host = ''0.0.0.0'', port = 12691\<rparr>,
           \<lparr>serves = DashboardHandler, host = ''localhost'', port = 12345\<rparr>]"

text \<open>
  The host argument \<^verbatim>\<open>"0.0.0.0"\<close> is the IPv4 wildcard address, which binds every
  interface; the name \<^verbatim>\<open>"localhost"\<close> resolves to the loopback addresses only.
\<close>

definition all_interfaces :: "string \<Rightarrow> bool" where
  "all_interfaces h = (h = ''0.0.0.0'')"

definition loopback_only :: "string \<Rightarrow> bool" where
  "loopback_only h = (h = ''localhost'' \<or> h = ''127.0.0.1'' \<or> h = ''::1'')"

definition endpoints :: "handler \<Rightarrow> server list \<Rightarrow> (string \<times> nat) list" where
  "endpoints h srv = map (\<lambda>e. (host e, port e)) (filter (\<lambda>e. serves e = h) srv)"

subsection \<open>The alternation the specification describes\<close>

text \<open>
  The four-step turn of the specification, as an automaton that reads the observed
  transport operations: a request comes in from the dashboard, is delivered to the agent,
  the agent's reply comes in, and the reply is returned to the dashboard. The literal
  \<open>''exit''\<close> coming in from the dashboard starts no turn. Any other operation is out of
  turn.
\<close>

datatype phase = Idle | Requested string | Delivered | Replied string

fun observe :: "phase \<Rightarrow> io \<Rightarrow> phase option" where
  "observe Idle (DashRecv p) = Some (if p = ''exit'' then Idle else Requested p)"
| "observe (Requested p) (AgentSend q) = (if q = p then Some Delivered else None)"
| "observe Delivered (AgentRecv r) = Some (Replied r)"
| "observe (Replied r) (DashSend q) = (if q = r then Some Idle else None)"
| "observe _ _ = None"

fun observes :: "phase \<Rightarrow> io list \<Rightarrow> phase option" where
  "observes ph [] = Some ph"
| "observes ph (e # es) = (case observe ph e of None \<Rightarrow> None | Some ph' \<Rightarrow> observes ph' es)"

definition alternates :: "io list \<Rightarrow> bool" where
  "alternates es = (observes Idle es \<noteq> None)"

text \<open>Which operation may come directly after which.\<close>

fun follows :: "io \<Rightarrow> io \<Rightarrow> bool" where
  "follows (DashRecv p) e =
     (if p = ''exit'' then (case e of DashRecv q \<Rightarrow> True | _ \<Rightarrow> False) else e = AgentSend p)"
| "follows (AgentSend p) e = (case e of AgentRecv r \<Rightarrow> True | _ \<Rightarrow> False)"
| "follows (AgentRecv r) e = (e = DashSend r)"
| "follows (DashSend r) e = (case e of DashRecv q \<Rightarrow> True | _ \<Rightarrow> False)"

text \<open>
  The payloads on each of the four legs, in the order observed: requests received from
  the dashboard other than \<open>''exit''\<close>, payloads sent to the agent, replies received from
  the agent, payloads sent to the dashboard.
\<close>

fun requests :: "io list \<Rightarrow> string list" where
  "requests [] = []"
| "requests (DashRecv p # es) = (if p = ''exit'' then requests es else p # requests es)"
| "requests (e # es) = requests es"

fun deliveries :: "io list \<Rightarrow> string list" where
  "deliveries [] = []"
| "deliveries (AgentSend p # es) = p # deliveries es"
| "deliveries (e # es) = deliveries es"

fun replies :: "io list \<Rightarrow> string list" where
  "replies [] = []"
| "replies (AgentRecv r # es) = r # replies es"
| "replies (e # es) = replies es"

fun returns :: "io list \<Rightarrow> string list" where
  "returns [] = []"
| "returns (DashSend r # es) = r # returns es"
| "returns (e # es) = returns es"

text \<open>How the shared state and the program counters stand in each phase of a turn.\<close>

fun in_phase :: "bridge \<Rightarrow> phase \<Rightarrow> bool" where
  "in_phase s Idle =
     (\<not> event s \<and> \<not> event2 s \<and> dashboard s \<noteq> D_Wait \<and> (agent s = A_Closed \<or> agent s = A_Wait))"
| "in_phase s (Requested p) =
     (event s \<and> \<not> event2 s \<and> message s = p \<and> p \<noteq> ''exit'' \<and> dashboard s = D_Wait \<and>
      (agent s = A_Closed \<or> agent s = A_Wait))"
| "in_phase s Delivered =
     (\<not> event s \<and> \<not> event2 s \<and> dashboard s = D_Wait)"
| "in_phase s (Replied r) =
     (\<not> event s \<and> event2 s \<and> message s = r \<and> dashboard s = D_Wait \<and>
      (agent s = A_Closed \<or> agent s = A_Wait))"

text \<open>
  What a phase still owes: the request not yet delivered to the agent, the reply not yet
  returned to the dashboard, and the number of requests not yet answered by the agent.
\<close>

fun owed_delivery :: "phase \<Rightarrow> string list" where
  "owed_delivery (Requested p) = [p]"
| "owed_delivery ph = []"

fun owed_return :: "phase \<Rightarrow> string list" where
  "owed_return (Replied r) = [r]"
| "owed_return ph = []"

fun owed_reply :: "phase \<Rightarrow> nat" where
  "owed_reply (Requested p) = 1"
| "owed_reply Delivered = 1"
| "owed_reply ph = 0"

subsection \<open>A session without transport failure\<close>

text \<open>
  The schedule of one turn in which the dashboard sends \<open>p\<close> and the agent answers \<open>r\<close>,
  what the turn puts on the wire, and a session of both handlers that serves a list of
  such turns.
\<close>

fun turn :: "string \<times> string \<Rightarrow> (task \<times> resume) list" where
  "turn (p, r) = [(Dashboard, Received p), (Agent, Woken), (Agent, Sent),
                  (Agent, Received r), (Dashboard, Woken), (Dashboard, Sent)]"

fun relay :: "string \<times> string \<Rightarrow> io list" where
  "relay (p, r) = [DashRecv p, AgentSend p, AgentRecv r, DashSend r]"

definition session :: "(string \<times> string) list \<Rightarrow> (task \<times> resume) list" where
  "session prs = (Agent, Accept) # (Dashboard, Accept) # concat (map turn prs)"

subsection \<open>Example states\<close>

text \<open>
  States of a session in which the dashboard sends \<open>''ping''\<close> and the agent answers
  \<open>''pong''\<close>: both handlers accepted; the request delivered and the agent's \<^verbatim>\<open>recv\<close>
  pending; the reply stored and \<^verbatim>\<open>event2\<close> set; the turn complete.
\<close>

definition both_accepted :: bridge where
  "both_accepted = \<lparr>message = ''global'', event = False, event2 = False,
                    dashboard = D_First_Recv, agent = A_Wait, wire = []\<rparr>"

definition awaiting_reply :: bridge where
  "awaiting_reply = \<lparr>message = ''ping'', event = False, event2 = False,
                     dashboard = D_Wait, agent = A_Recv,
                     wire = [DashRecv ''ping'', AgentSend ''ping'']\<rparr>"

definition reply_ready :: bridge where
  "reply_ready = \<lparr>message = ''pong'', event = False, event2 = True,
                  dashboard = D_Wait, agent = A_Wait,
                  wire = [DashRecv ''ping'', AgentSend ''ping'', AgentRecv ''pong'']\<rparr>"

definition turn_done :: bridge where
  "turn_done = \<lparr>message = ''pong'', event = False, event2 = False,
                dashboard = D_Next_Recv, agent = A_Wait,
                wire = [DashRecv ''ping'', AgentSend ''ping'', AgentRecv ''pong'',
                        DashSend ''pong'']\<rparr>"

section \<open>Properties\<close>

subsection \<open>The handlers follow the alternation\<close>

text \<open>
  Every reachable state has a phase: the automaton accepts the operations observed so
  far, and the signals, the mailbox and the program counters stand as that phase says.
\<close>

lemma observes_snoc:
  "observes ph (es @ [e]) = (case observes ph es of None \<Rightarrow> None | Some ph' \<Rightarrow> observe ph' e)"
  by (induction es arbitrary: ph) (auto split: option.splits)

lemma observes_append:
  "observes ph (es @ fs) = (case observes ph es of None \<Rightarrow> None | Some ph' \<Rightarrow> observes ph' fs)"
  by (induction es arbitrary: ph) (auto split: option.splits)

lemma step_simulates:
  assumes "observes Idle (wire s) = Some ph" and "in_phase s ph" and "step a s = Some s'"
  shows "\<exists>ph'. observes Idle (wire s') = Some ph' \<and> in_phase s' ph'"
proof (cases a)
  case (Pair t r)
  show ?thesis
  proof (cases t)
    case Dashboard
    with Pair assms show ?thesis
      by (cases r; cases ph) (auto simp: observes_snoc split: if_splits)
  next
    case Agent
    with Pair assms show ?thesis
      by (cases r; cases ph) (auto simp: observes_snoc split: if_splits)
  qed
qed

lemma reachable_simulates:
  "reachable s \<Longrightarrow> \<exists>ph. observes Idle (wire s) = Some ph \<and> in_phase s ph"
proof (induction rule: reachable.induct)
  case reachable_init
  show ?case by (simp add: init_def)
next
  case (reachable_step s a s')
  then show ?case using step_simulates by blast
qed

subsection \<open>Schedules\<close>

lemma exec_reachable: "reachable s \<Longrightarrow> exec as s = Some s' \<Longrightarrow> reachable s'"
proof (induction as arbitrary: s)
  case Nil
  then show ?case by simp
next
  case (Cons a as)
  then show ?case by (auto split: option.splits intro: reachable_step)
qed

lemma exec_append:
  "exec (as @ bs) s = (case exec as s of None \<Rightarrow> None | Some s' \<Rightarrow> exec bs s')"
  by (induction as arbitrary: s) (auto split: option.splits)

lemma step_wire: "step a s = Some s' \<Longrightarrow> \<exists>es. wire s' = wire s @ es"
proof (cases a)
  case (Pair t r)
  assume "step a s = Some s'"
  with Pair show ?thesis
    by (cases t; cases r) (auto split: if_splits)
qed

lemma exec_wire: "exec as s = Some s' \<Longrightarrow> \<exists>es. wire s' = wire s @ es"
proof (induction as arbitrary: s)
  case Nil
  then show ?case by simp
next
  case (Cons a as)
  from Cons.prems obtain s1 where 1: "step a s = Some s1" and 2: "exec as s1 = Some s'"
    by (auto split: option.splits)
  from step_wire[OF 1] Cons.IH[OF 2] show ?case by auto
qed

lemma reachable_both_accepted: "reachable both_accepted"
proof -
  have "exec [(Agent, Accept), (Dashboard, Accept)] init = Some both_accepted"
    by (simp add: init_def both_accepted_def)
  from exec_reachable[OF reachable_init this] show ?thesis .
qed

lemma reachable_awaiting_reply: "reachable awaiting_reply"
proof -
  have "exec [(Dashboard, Received ''ping''), (Agent, Woken), (Agent, Sent)] both_accepted
          = Some awaiting_reply"
    by (simp add: both_accepted_def awaiting_reply_def)
  from exec_reachable[OF reachable_both_accepted this] show ?thesis .
qed

lemma reachable_reply_ready: "reachable reply_ready"
proof -
  have "exec [(Agent, Received ''pong'')] awaiting_reply = Some reply_ready"
    by (simp add: awaiting_reply_def reply_ready_def)
  from exec_reachable[OF reachable_awaiting_reply this] show ?thesis .
qed

lemma reachable_turn_done: "reachable turn_done"
proof -
  have "exec [(Dashboard, Woken), (Dashboard, Sent)] reply_ready = Some turn_done"
    by (simp add: reply_ready_def turn_done_def)
  from exec_reachable[OF reachable_reply_ready this] show ?thesis .
qed

subsection \<open>Accepted sequences of operations\<close>

lemma observes_last:
  "observes Idle es = Some ph \<Longrightarrow>
     (case ph of
        Idle \<Rightarrow> True
      | Requested p \<Rightarrow> es \<noteq> [] \<and> last es = DashRecv p \<and> p \<noteq> ''exit''
      | Delivered \<Rightarrow> es \<noteq> [] \<and> (\<exists>q. last es = AgentSend q)
      | Replied r \<Rightarrow> es \<noteq> [] \<and> last es = AgentRecv r)"
proof (induction es arbitrary: ph rule: rev_induct)
  case Nil
  then show ?case by simp
next
  case (snoc e es)
  then obtain ph0 where 0: "observes Idle es = Some ph0" and 1: "observe ph0 e = Some ph"
    by (auto simp: observes_snoc split: option.splits)
  from 1 show ?case
    by (cases ph0; cases e) (auto split: if_splits)
qed

lemma observes_hd:
  "observes Idle es = Some ph \<Longrightarrow> es \<noteq> [] \<Longrightarrow> \<exists>p. hd es = DashRecv p"
  by (cases es; cases "hd es") (auto split: option.splits)

lemma observe_follows:
  "observes Idle es = Some ph \<Longrightarrow> es \<noteq> [] \<Longrightarrow> observe ph e = Some ph' \<Longrightarrow> follows (last es) e"
proof -
  assume a: "observes Idle es = Some ph" "es \<noteq> []" "observe ph e = Some ph'"
  show ?thesis
  proof (cases ph)
    case Idle
    from a(1,2) have "observes Idle (butlast es @ [last es]) = Some ph" by simp
    then obtain ph0 where "observe ph0 (last es) = Some Idle"
      unfolding observes_snoc using Idle by (auto split: option.splits)
    then have "(\<exists>r. last es = DashSend r) \<or> last es = DashRecv ''exit''"
      by (cases ph0; cases "last es") (auto split: if_splits)
    moreover from a(3) Idle obtain p where "e = DashRecv p" by (cases e) auto
    ultimately show ?thesis by auto
  next
    case (Requested p)
    with a observes_last[OF a(1)] show ?thesis by (cases e) (auto split: if_splits)
  next
    case Delivered
    with a observes_last[OF a(1)] show ?thesis by (cases e) (auto split: if_splits)
  next
    case (Replied r)
    with a observes_last[OF a(1)] show ?thesis by (cases e) (auto split: if_splits)
  qed
qed

lemma alternates_successively:
  "observes Idle es = Some ph \<Longrightarrow> successively follows es"
proof (induction es arbitrary: ph rule: rev_induct)
  case Nil
  then show ?case by simp
next
  case (snoc e es)
  then obtain ph0 where 0: "observes Idle es = Some ph0" and 1: "observe ph0 e = Some ph"
    by (auto simp: observes_snoc split: option.splits)
  from snoc.IH[OF 0] observe_follows[OF 0 _ 1] show ?case
    by (auto simp: successively_append_iff)
qed

lemma requests_append: "requests (es @ fs) = requests es @ requests fs"
  by (induction es rule: requests.induct) auto
lemma deliveries_append: "deliveries (es @ fs) = deliveries es @ deliveries fs"
  by (induction es rule: deliveries.induct) auto
lemma replies_append: "replies (es @ fs) = replies es @ replies fs"
  by (induction es rule: replies.induct) auto
lemma returns_append: "returns (es @ fs) = returns es @ returns fs"
  by (induction es rule: returns.induct) auto

lemma observes_legs:
  "observes Idle es = Some ph \<Longrightarrow>
     requests es = deliveries es @ owed_delivery ph \<and>
     replies es = returns es @ owed_return ph \<and>
     length (requests es) = length (replies es) + owed_reply ph"
proof (induction es arbitrary: ph rule: rev_induct)
  case Nil
  then show ?case by simp
next
  case (snoc e es)
  then obtain ph0 where 0: "observes Idle es = Some ph0" and 1: "observe ph0 e = Some ph"
    by (auto simp: observes_snoc split: option.splits)
  from snoc.IH[OF 0] 1 show ?case
    by (cases ph0; cases e)
       (auto simp: requests_append deliveries_append replies_append returns_append split: if_splits)
qed


subsection \<open>Sessions without transport failure run to completion\<close>

lemma one_turn:
  assumes "dashboard s = D_First_Recv \<or> dashboard s = D_Next_Recv" and "agent s = A_Wait"
    and "\<not> event s" and "\<not> event2 s" and "p \<noteq> ''exit''"
  shows "\<exists>s'. exec (turn (p, r)) s = Some s' \<and> wire s' = wire s @ relay (p, r) \<and>
           dashboard s' = D_Next_Recv \<and> agent s' = A_Wait \<and> \<not> event s' \<and> \<not> event2 s'"
  using assms by auto

lemma turns_run:
  assumes "dashboard s = D_First_Recv \<or> dashboard s = D_Next_Recv" and "agent s = A_Wait"
    and "\<not> event s" and "\<not> event2 s" and "''exit'' \<notin> fst ` set prs"
  shows "\<exists>s'. exec (concat (map turn prs)) s = Some s' \<and>
           wire s' = wire s @ concat (map relay prs) \<and>
           (dashboard s' = D_First_Recv \<or> dashboard s' = D_Next_Recv) \<and> agent s' = A_Wait \<and>
           \<not> event s' \<and> \<not> event2 s'"
  using assms
proof (induction prs arbitrary: s)
  case Nil
  then show ?case by simp
next
  case (Cons pr prs)
  obtain p r where pr: "pr = (p, r)" by (cases pr)
  with Cons.prems have ne: "p \<noteq> ''exit''" and rest: "''exit'' \<notin> fst ` set prs" by auto
  from one_turn[OF Cons.prems(1-4) ne, of r] obtain s1 where
    1: "exec (turn (p, r)) s = Some s1" "wire s1 = wire s @ relay (p, r)"
       "dashboard s1 = D_Next_Recv" "agent s1 = A_Wait" "\<not> event s1" "\<not> event2 s1"
    by blast
  from Cons.IH[OF _ 1(4) 1(5) 1(6) rest] 1(3) obtain s' where
    2: "exec (concat (map turn prs)) s1 = Some s'" "wire s' = wire s1 @ concat (map relay prs)"
       "dashboard s' = D_First_Recv \<or> dashboard s' = D_Next_Recv" "agent s' = A_Wait"
       "\<not> event s'" "\<not> event2 s'"
    by blast
  have "exec (concat (map turn (pr # prs))) s = Some s'"
    using 1(1) 2(1) pr by (simp only: list.map concat.simps exec_append option.case)
  moreover have "wire s' = wire s @ concat (map relay (pr # prs))"
    using 1(2) 2(2) pr by simp
  ultimately show ?case using 2 by blast
qed

lemma session_run:
  assumes "''exit'' \<notin> fst ` set prs"
  shows "\<exists>s'. exec (session prs) init = Some s' \<and> wire s' = concat (map relay prs) \<and>
           dashboard s' \<noteq> D_Wait"
proof -
  let ?s = "init\<lparr>agent := A_Wait, dashboard := D_First_Recv\<rparr>"
  have "dashboard ?s = D_First_Recv \<or> dashboard ?s = D_Next_Recv" "agent ?s = A_Wait"
    "\<not> event ?s" "\<not> event2 ?s" by (simp_all add: init_def)
  from turns_run[OF this assms] obtain s' where
    "exec (concat (map turn prs)) ?s = Some s'" "wire s' = wire ?s @ concat (map relay prs)"
    "dashboard s' = D_First_Recv \<or> dashboard s' = D_Next_Recv" by blast
  moreover have "exec (session prs) init = exec (concat (map turn prs)) ?s"
    by (simp add: session_def init_def)
  ultimately show ?thesis by (auto simp: init_def)
qed

lemma legs_of_relay:
  "deliveries (concat (map relay prs)) = map fst prs \<and>
   returns (concat (map relay prs)) = map snd prs"
  by (induction prs) auto

subsection \<open>Initial state and listener\<close>

text \<open>
  Claim C6, as amended. The mailbox starts as the literal \<open>''global''\<close>, a placeholder
  that differs from the literal \<open>''exit''\<close> the dashboard loop tests for.
\<close>

theorem initial_mailbox_is_global:
  "message init = ''global'' \<and> message init \<noteq> sentinel"
  by (simp add: init_def sentinel_def)

text \<open>Claim C6 as stated fails: the initial mailbox is not the literal \<open>''exit''\<close>.\<close>

theorem initial_mailbox_not_exit:
  "\<not> (message init = ''exit'')"
  by (simp add: init_def)

text \<open>
  Claim C8. The listener serves \<open>agenticHandler\<close> on exactly one endpoint, host
  \<open>''0.0.0.0''\<close> (all interfaces) at port 12691, and \<open>dashboardHandler\<close> on exactly one
  endpoint, host \<open>''localhost''\<close> (loopback only, not all interfaces) at port 12345.
\<close>

theorem listener_endpoints:
  "endpoints AgenticHandler main = [(''0.0.0.0'', 12691)] \<and>
   all_interfaces ''0.0.0.0'' \<and>
   endpoints DashboardHandler main = [(''localhost'', 12345)] \<and>
   loopback_only ''localhost'' \<and> \<not> all_interfaces ''localhost''"
  by (simp add: endpoints_def main_def all_interfaces_def loopback_only_def)



end
